theory Spec2Isabelle
  imports Main "HOL-Library.Sublist"
begin

section \<open>Data model\<close>

text \<open>
  The graph store of \<^verbatim>\<open>graphrag/graph.py\<close> keeps one document per entity in a
  collection of a document database and talks to it through two requests only:
  a bulk of \<^verbatim>\<open>UpdateOne\<close> upserts (\<^verbatim>\<open>add_documents\<close>) and one aggregation
  pipeline (\<^verbatim>\<open>related_entities\<close>). The embedding below follows the Python line
  by line and gives each database operator the code uses (\<^verbatim>\<open>$setOnInsert\<close>,
  \<^verbatim>\<open>$addToSet\<close>, \<^verbatim>\<open>$each\<close>, \<^verbatim>\<open>$match\<close>, \<^verbatim>\<open>$graphLookup\<close>, \<^verbatim>\<open>$unwind\<close>,
  \<^verbatim>\<open>$replaceRoot\<close>, \<^verbatim>\<open>$group\<close>, \<^verbatim>\<open>$project\<close>) its documented sequential meaning.

  Values are JSON values as \<^verbatim>\<open>json.loads\<close> produces them, numbers with a
  fraction left out: they become floating-point numbers, which the embedding
  does not represent. An integer is unbounded, as Python's is; a string is
  the UTF-8 form of a Python string. Equality of values is structural, which
  for embedded documents is the database's own rule for \<^verbatim>\<open>$addToSet\<close> (same
  fields, same values, same order).
\<close>

datatype json =
    JNull
  | JBool bool
  | JNum int
  | JStr string
  | JArr "json list"
  | JObj "(string \<times> json) list"

text \<open>
  \<^verbatim>\<open>Entity: TypeAlias = Dict[str, Any]\<close> with the keys \<^verbatim>\<open>ID\<close>, \<^verbatim>\<open>type\<close>,
  \<^verbatim>\<open>properties\<close> and \<^verbatim>\<open>relationships\<close>. Dictionaries are association lists in
  insertion order. A key that is absent and an empty dictionary are both the
  empty list: the code reads the two optional keys with \<^verbatim>\<open>entity.get(key, {})\<close>,
  and the pipeline finds no relationship target in either.

  The type parameter is what a property key maps to: one value in an entity
  that the extraction model returns, an array of values in a stored document.
  Every relationship type maps to an array of target descriptors in both.
  Field names (the keys of the two nested dictionaries) are plain names: a
  name holding a dot would be read by the database as a path.
\<close>

record 'p entity =
  ID :: string
  type :: string
  properties :: "(string \<times> 'p) list"
  relationships :: "(string \<times> json list) list"

text \<open>A stored document is an entity together with the database's \<^verbatim>\<open>_id\<close>.\<close>

record stored = "json list entity" +
  oid :: nat

text \<open>The part of \<^verbatim>\<open>self\<close> that the two operations read and write.\<close>

record MongoDBGraphStore =
  max_depth :: int
  collection :: "stored list"

record Document =
  page_content :: string

datatype documents_arg = Single Document | Many "Document list"

text \<open>
  What the caller of the two operations can see fail: the extraction, the
  driver when it encodes a request (\<^verbatim>\<open>OverflowError\<close> for an integer beyond
  64 bits, \<^verbatim>\<open>InvalidDocument\<close> for a NUL character in a key,
  \<^verbatim>\<open>InvalidOperation\<close> for an empty bulk), and the store when it refuses an
  update (\<^verbatim>\<open>BulkWriteError\<close>) or a pipeline (\<^verbatim>\<open>OperationFailure\<close>).
\<close>

datatype error =
    ExtractionError
  | OverflowError
  | InvalidDocument
  | InvalidOperation
  | BulkWriteError
  | OperationFailure

section \<open>What the driver encodes\<close>

text \<open>
  The driver turns a request into BSON before it sends anything. An integer
  must fit into 64 bits and a key must hold no NUL character; the first value
  that breaks a rule, in the order of the document, raises. Sizes and nesting
  limits of the store are not part of the embedding.
\<close>

definition int64 :: "int \<Rightarrow> bool" where
  "int64 n \<longleftrightarrow> - (2 ^ 63) \<le> n \<and> n < 2 ^ 63"

fun first_error :: "error option list \<Rightarrow> error option" where
  "first_error [] = None"
| "first_error (None # es) = first_error es"
| "first_error (Some e # es) = Some e"

definition name_error :: "string \<Rightarrow> error option" where
  "name_error k = (if CHR 0x00 \<in> set k then Some InvalidDocument else None)"

fun bson_error :: "json \<Rightarrow> error option" where
  "bson_error (JNum n) = (if int64 n then None else Some OverflowError)"
| "bson_error (JArr vs) = first_error (map bson_error vs)"
| "bson_error (JObj fs) =
     first_error (concat (map (\<lambda>(k, v). [name_error k, bson_error v]) fs))"
| "bson_error v = None"

section \<open>The upsert of \<^verbatim>\<open>add_documents\<close>\<close>

text \<open>
  The request built for one entity:
  \<^verbatim>\<open>UpdateOne(filter={"ID": entity["ID"]},
            update={"$setOnInsert": {"ID": entity["ID"], "type": entity["type"]},
                    "$addToSet": {"properties.k": v, ...,
                                  "relationships.k": {"$each": v}, ...}},
            upsert=True)\<close>
  A property value is sent as the entity has it; a list of relationship
  descriptors is wrapped in \<^verbatim>\<open>$each\<close>.
\<close>

record UpdateOne =
  filter_ID :: string
  setOnInsert_ID :: string
  setOnInsert_type :: string
  addToSet_properties :: "(string \<times> json) list"
  addToSet_relationships_each :: "(string \<times> json list) list"
  upsert :: bool

definition make_operation :: "json entity \<Rightarrow> UpdateOne" where
  "make_operation entity =
     \<lparr> filter_ID = ID entity,
       setOnInsert_ID = ID entity,
       setOnInsert_type = type entity,
       addToSet_properties = properties entity,
       addToSet_relationships_each = relationships entity,
       upsert = True \<rparr>"

definition operation_bson_error :: "UpdateOne \<Rightarrow> error option" where
  "operation_bson_error u =
     first_error
       (concat (map (\<lambda>(k, v). [name_error k, bson_error v]) (addToSet_properties u)) @
        concat (map (\<lambda>(k, vs). [name_error k, first_error (map bson_error vs)])
                  (addToSet_relationships_each u)))"

text \<open>
  How the store reads the operand of \<^verbatim>\<open>$addToSet\<close>: a document whose first
  field is \<^verbatim>\<open>$each\<close> is the modifier, which must hold an array and nothing
  else, and stands for the elements of the array; any other value, an array
  included, stands for itself as one element.
\<close>

fun addToSet_operand :: "json \<Rightarrow> error + json list" where
  "addToSet_operand (JObj ((k, x) # rest)) =
     (if k = ''$each''
      then (case x of
              JArr vs \<Rightarrow> if rest = [] then Inr vs else Inl BulkWriteError
            | _ \<Rightarrow> Inl BulkWriteError)
      else Inr [JObj ((k, x) # rest)])"
| "addToSet_operand v = Inr [v]"

text \<open>
  The code splices a key into the update path: \<^verbatim>\<open>f"properties.{k}"\<close>. A key
  that is a plain field name addresses the field of that name in the nested
  document. Any other key is read by the store as something else (an empty
  part is refused, a dot separates the parts of a longer path, a leading
  dollar sign is an operator). Such an operation is outside the embedding,
  whose documents hold arrays under the fields of the two nested documents:
  here the store refuses it, so that a statement about a call that returns is
  a statement about plain keys.
\<close>

definition plain_field_name :: "string \<Rightarrow> bool" where
  "plain_field_name k \<longleftrightarrow> k \<noteq> [] \<and> CHR ''.'' \<notin> set k \<and> hd k \<noteq> CHR ''$''"

fun path_modifiers ::
  "(string \<times> (error + json list)) list \<Rightarrow> error + (string \<times> json list) list" where
  "path_modifiers [] = Inr []"
| "path_modifiers ((k, operand) # rest) =
     (if \<not> plain_field_name k then Inl BulkWriteError
      else (case operand of
              Inl e \<Rightarrow> Inl e
            | Inr vs \<Rightarrow>
                (case path_modifiers rest of
                   Inl e \<Rightarrow> Inl e
                 | Inr ms \<Rightarrow> Inr ((k, vs) # ms))))"

record update_modifiers =
  property_sets :: "(string \<times> json list) list"
  relationship_sets :: "(string \<times> json list) list"

definition parse_update :: "UpdateOne \<Rightarrow> error + update_modifiers" where
  "parse_update u =
     (case path_modifiers (map (\<lambda>(k, v). (k, addToSet_operand v)) (addToSet_properties u)) of
        Inl e \<Rightarrow> Inl e
      | Inr ps \<Rightarrow>
          (case path_modifiers (map (\<lambda>(k, vs). (k, Inr vs)) (addToSet_relationships_each u)) of
             Inl e \<Rightarrow> Inl e
           | Inr rs \<Rightarrow> Inr \<lparr> property_sets = ps, relationship_sets = rs \<rparr>))"

text \<open>
  \<^verbatim>\<open>$addToSet\<close> appends a value to an array unless the array holds it already,
  and does so for every element it was given, in turn. Values already stored
  are left where they are. An entity with no property and no relationship
  sends an empty \<^verbatim>\<open>$addToSet\<close>, which changes nothing.
\<close>

definition addToSet :: "json list \<Rightarrow> json \<Rightarrow> json list" where
  "addToSet arr v = (if v \<in> set arr then arr else arr @ [v])"

definition addToSet_each :: "json list \<Rightarrow> json list \<Rightarrow> json list" where
  "addToSet_each arr vs = foldl addToSet arr vs"

text \<open>
  The operator at the path \<^verbatim>\<open>properties.k\<close> or \<^verbatim>\<open>relationships.k\<close>: the array under
  the field \<open>k\<close> of the nested document receives the values; a field that is
  absent is created, after the fields already there, holding the values.
\<close>

fun addToSet_field ::
  "string \<Rightarrow> json list \<Rightarrow> (string \<times> json list) list \<Rightarrow> (string \<times> json list) list" where
  "addToSet_field k vs [] = [(k, addToSet_each [] vs)]"
| "addToSet_field k vs ((k', arr) # rest) =
     (if k' = k then (k', addToSet_each arr vs) # rest
      else (k', arr) # addToSet_field k vs rest)"

definition apply_addToSet :: "update_modifiers \<Rightarrow> stored \<Rightarrow> stored" where
  "apply_addToSet m d =
     d\<lparr> properties :=
          fold (\<lambda>(k, vs). addToSet_field k vs) (property_sets m) (properties d),
        relationships :=
          fold (\<lambda>(k, vs). addToSet_field k vs) (relationship_sets m) (relationships d) \<rparr>"

text \<open>
  The document an upsert inserts when nothing matches: the equality of the
  filter, then \<^verbatim>\<open>$setOnInsert\<close>, then the \<^verbatim>\<open>$addToSet\<close> fields, under a fresh
  \<^verbatim>\<open>_id\<close>.
\<close>

definition fresh_oid :: "stored list \<Rightarrow> nat" where
  "fresh_oid coll = Suc (fold max (map oid coll) 0)"

definition inserted_document :: "UpdateOne \<Rightarrow> update_modifiers \<Rightarrow> nat \<Rightarrow> stored" where
  "inserted_document u m n =
     apply_addToSet m
       \<lparr> ID = setOnInsert_ID u, type = setOnInsert_type u,
         properties = [], relationships = [], oid = n \<rparr>"

text \<open>An update of one document changes the first document the filter matches.\<close>

fun update_first :: "('a \<Rightarrow> bool) \<Rightarrow> ('a \<Rightarrow> 'a) \<Rightarrow> 'a list \<Rightarrow> 'a list" where
  "update_first P f [] = []"
| "update_first P f (d # ds) = (if P d then f d # ds else d # update_first P f ds)"

record BulkWriteResult =
  matched_count :: nat
  modified_count :: nat
  upserted_count :: nat

text \<open>
  One operation at the store: the update is read first, and refused when a
  path or an operand is not acceptable; then the first matching document is
  changed, or a document is inserted.
\<close>

definition update_one ::
  "UpdateOne \<Rightarrow> BulkWriteResult \<times> stored list \<Rightarrow> error + BulkWriteResult \<times> stored list" where
  "update_one u = (\<lambda>(r, coll).
     (case parse_update u of
        Inl e \<Rightarrow> Inl e
      | Inr m \<Rightarrow>
          Inr (case find (\<lambda>d. ID d = filter_ID u) coll of
                 Some d \<Rightarrow>
                   (r\<lparr> matched_count := matched_count r + 1,
                       modified_count :=
                         modified_count r + (if apply_addToSet m d = d then 0 else 1) \<rparr>,
                    update_first (\<lambda>d. ID d = filter_ID u) (apply_addToSet m) coll)
               | None \<Rightarrow>
                   (if upsert u
                    then (r\<lparr> upserted_count := upserted_count r + 1 \<rparr>,
                          coll @ [inserted_document u m (fresh_oid coll)])
                    else (r, coll)))))"

text \<open>
  An ordered bulk write. The driver refuses an empty list of operations and
  encodes the operations before it sends them (one batch: the store takes
  100000 operations in a batch); the store then runs them one after the other
  and stops at the first it refuses, keeping what the earlier ones wrote.
\<close>

fun execute_ordered ::
  "UpdateOne list \<Rightarrow> BulkWriteResult \<times> stored list \<Rightarrow> (error + BulkWriteResult) \<times> stored list" where
  "execute_ordered [] (r, coll) = (Inr r, coll)"
| "execute_ordered (u # us) (r, coll) =
     (case update_one u (r, coll) of
        Inl e \<Rightarrow> (Inl e, coll)
      | Inr rc \<Rightarrow> execute_ordered us rc)"

definition bulk_write ::
  "UpdateOne list \<Rightarrow> stored list \<Rightarrow> (error + BulkWriteResult) \<times> stored list" where
  "bulk_write operations coll =
     (if operations = [] then (Inl InvalidOperation, coll)
      else (case first_error (map operation_bson_error operations) of
              Some e \<Rightarrow> (Inl e, coll)
            | None \<Rightarrow>
                execute_ordered operations
                  (\<lparr> matched_count = 0, modified_count = 0, upserted_count = 0 \<rparr>, coll)))"

text \<open>
  \<^verbatim>\<open>add_documents\<close>. The extraction model is a parameter: it maps the text of a
  document to the entities found, or fails (the call to the model, the JSON
  parser and the lookup of \<^verbatim>\<open>"entities"\<close> can each raise). The loop keeps the
  list of results and the collection; an exception of \<^verbatim>\<open>bulk_write\<close> ends it,
  and what was written before stays written.
\<close>

fun add_documents_loop ::
  "(string \<Rightarrow> error + json entity list) \<Rightarrow> Document list \<Rightarrow> BulkWriteResult list \<Rightarrow>
   stored list \<Rightarrow> (error + BulkWriteResult list) \<times> stored list" where
  "add_documents_loop extract_entities [] results coll = (Inr results, coll)"
| "add_documents_loop extract_entities (doc # documents) results coll =
     (case extract_entities (page_content doc) of
        Inl e \<Rightarrow> (Inl e, coll)
      | Inr entities \<Rightarrow>
          (let operations = map make_operation entities in
           if operations \<noteq> []
           then (case bulk_write operations coll of
                   (Inl e, coll') \<Rightarrow> (Inl e, coll')
                 | (Inr r, coll') \<Rightarrow>
                     add_documents_loop extract_entities documents (results @ [r]) coll')
           else add_documents_loop extract_entities documents results coll))"

definition add_documents ::
  "(string \<Rightarrow> error + json entity list) \<Rightarrow> MongoDBGraphStore \<Rightarrow> documents_arg \<Rightarrow>
   (error + BulkWriteResult list) \<times> MongoDBGraphStore" where
  "add_documents extract_entities self documents =
     (let documents = (case documents of Single doc \<Rightarrow> [doc] | Many docs \<Rightarrow> docs) in
      case add_documents_loop extract_entities documents [] (collection self) of
        (res, coll') \<Rightarrow> (res, self\<lparr> collection := coll' \<rparr>))"

section \<open>The aggregation pipeline of \<^verbatim>\<open>related_entities\<close>\<close>

text \<open>
  \<^verbatim>\<open>startWith\<close>: the \<^verbatim>\<open>$reduce\<close> over \<^verbatim>\<open>$objectToArray: "$relationships"\<close> that
  concatenates \<^verbatim>\<open>$$this.v.target\<close> for every relationship type. The path
  \<^verbatim>\<open>v.target\<close> through the array \<open>v\<close> collects the \<^verbatim>\<open>target\<close> field of every
  element that is a document holding one. A document with no
  \<^verbatim>\<open>relationships\<close> field gives null.
\<close>

fun target_values :: "json list \<Rightarrow> json list" where
  "target_values [] = []"
| "target_values (JObj fs # vs) =
     (case map_of fs ''target'' of
        Some t \<Rightarrow> t # target_values vs
      | None \<Rightarrow> target_values vs)"
| "target_values (v # vs) = target_values vs"

definition startWith :: "stored \<Rightarrow> json" where
  "startWith d =
     (if relationships d = [] then JNull
      else JArr (foldl (\<lambda>value this. value @ target_values (snd this)) [] (relationships d)))"

text \<open>
  \<^verbatim>\<open>$graphLookup\<close> with \<^verbatim>\<open>connectFromField: "ID"\<close> and \<^verbatim>\<open>connectToField: "ID"\<close>.
  The search keeps the documents visited, keyed by \<^verbatim>\<open>_id\<close>, and a frontier of
  values. One round queries the collection for the documents whose
  \<^verbatim>\<open>connectToField\<close> is a value of the frontier; every document of the answer
  not visited before joins the visited documents and puts its
  \<^verbatim>\<open>connectFromField\<close> into the next frontier. Rounds go on while the last one
  found a new document and the depth is at most \<^verbatim>\<open>maxDepth\<close>.
\<close>

record lookup_state =
  visited :: "stored list"
  frontier :: "json list"

definition addToVisitedAndFrontier :: "stored \<Rightarrow> bool \<times> lookup_state \<Rightarrow> bool \<times> lookup_state" where
  "addToVisitedAndFrontier result = (\<lambda>(again, s).
     if oid result \<in> oid ` set (visited s) then (again, s)
     else (True, s\<lparr> visited := visited s @ [result],
                      frontier := frontier s @ [JStr (ID result)] \<rparr>))"

definition query_frontier :: "stored list \<Rightarrow> json list \<Rightarrow> stored list" where
  "query_frontier coll fr = filter (\<lambda>d. JStr (ID d) \<in> set fr) coll"

function doBreadthFirstSearch ::
  "stored list \<Rightarrow> int \<Rightarrow> int \<Rightarrow> lookup_state \<Rightarrow> lookup_state" where
  "doBreadthFirstSearch coll maxDepth depth s =
     (case fold addToVisitedAndFrontier (query_frontier coll (frontier s))
             (False, s\<lparr> frontier := [] \<rparr>) of
        (shouldPerformAnotherQuery, s') \<Rightarrow>
          if shouldPerformAnotherQuery \<and> depth + 1 \<le> maxDepth
          then doBreadthFirstSearch coll maxDepth (depth + 1) s'
          else s')"
  by pat_completeness auto
termination
  by (relation "measure (\<lambda>(coll, maxDepth, depth, s). nat (maxDepth - depth))") auto

declare doBreadthFirstSearch.simps [simp del]

definition graphLookup :: "stored list \<Rightarrow> int \<Rightarrow> json \<Rightarrow> stored list" where
  "graphLookup coll maxDepth start =
     visited (doBreadthFirstSearch coll maxDepth 0
       \<lparr> visited = [], frontier = (case start of JArr vs \<Rightarrow> vs | v \<Rightarrow> [v]) \<rparr>)"

text \<open>
  \<^verbatim>\<open>$group\<close> on \<^verbatim>\<open>$ID\<close> with \<^verbatim>\<open>$first\<close>: one document for every identifier,
  the first of the input that carries it.
\<close>

fun group_first :: "string list \<Rightarrow> stored list \<Rightarrow> stored list" where
  "group_first seen [] = []"
| "group_first seen (d # ds) =
     (if ID d \<in> set seen then group_first seen ds
      else d # group_first (ID d # seen) ds)"

text \<open>Python's \<^verbatim>\<open>a or b\<close> on integers: \<open>a\<close> unless it is zero.\<close>

definition py_or :: "int \<Rightarrow> int \<Rightarrow> int" where
  "py_or a b = (if a \<noteq> 0 then a else b)"

text \<open>
  The pipeline, stage by stage: \<open>matched\<close> is the \<^verbatim>\<open>$match\<close> on the seeds,
  \<open>connections\<close> the field that \<^verbatim>\<open>$graphLookup\<close> adds to each matched document,
  \<open>unwound\<close> the \<^verbatim>\<open>$unwind\<close> of that field followed by \<^verbatim>\<open>$replaceRoot\<close>,
  \<open>grouped\<close> the \<^verbatim>\<open>$group\<close> followed by \<^verbatim>\<open>$replaceRoot\<close>, and the final
  \<^verbatim>\<open>$project\<close> drops \<^verbatim>\<open>_id\<close>. The parameter \<^verbatim>\<open>max_depth\<close> is written
  \<open>max_depth0\<close>, apart from the field \<^verbatim>\<open>self.max_depth\<close>. The driver
  raises on a \<^verbatim>\<open>maxDepth\<close> beyond 64 bits when it encodes the pipeline, and
  the database refuses a negative one when it reads the pipeline, before any
  document is looked at. The order of the list returned is one the database
  may choose; the model lists documents in the order of the collection and of
  discovery.
\<close>

definition related_entities ::
  "MongoDBGraphStore \<Rightarrow> string list \<Rightarrow> int \<Rightarrow> error + json list entity list" where
  "related_entities self starting_entities max_depth0 =
     (let maxDepth = py_or max_depth0 (max_depth self);
          coll = collection self in
      if \<not> int64 maxDepth then Inl OverflowError
      else if maxDepth < 0 then Inl OperationFailure
      else
        (let matched = filter (\<lambda>d. ID d \<in> set starting_entities) coll;
             connections = map (\<lambda>d. graphLookup coll maxDepth (startWith d)) matched;
             unwound = concat connections;
             grouped = group_first [] unwound
         in Inr (map entity.truncate grouped)))"

section \<open>Notions used to state the properties\<close>




text \<open>All entities a call of \<^verbatim>\<open>add_documents\<close> extracts from its documents.\<close>

definition unpack :: "documents_arg \<Rightarrow> Document list" where
  "unpack documents = (case documents of Single doc \<Rightarrow> [doc] | Many docs \<Rightarrow> docs)"

definition entities_of :: "(string \<Rightarrow> error + json entity list) \<Rightarrow> Document \<Rightarrow> json entity list" where
  "entities_of extract_entities doc =
     (case extract_entities (page_content doc) of Inl e \<Rightarrow> [] | Inr entities \<Rightarrow> entities)"

definition extracted_entities ::
  "(string \<Rightarrow> error + json entity list) \<Rightarrow> documents_arg \<Rightarrow> json entity list" where
  "extracted_entities extract_entities documents =
     concat (map (entities_of extract_entities) (unpack documents))"





text \<open>
  The traversal as the documentation of \<^verbatim>\<open>related_entities\<close> and the
  specification describe it, to be compared with the pipeline: the documents
  reached from a set of documents by following the \<^verbatim>\<open>target\<close> of their
  relationships, at most \<open>n\<close> further steps after the first.
\<close>

definition relationship_targets :: "stored \<Rightarrow> json list" where
  "relationship_targets d = concat (map (\<lambda>(k, vs). target_values vs) (relationships d))"

definition follow_edges :: "stored list \<Rightarrow> stored list \<Rightarrow> stored list" where
  "follow_edges coll ds =
     filter (\<lambda>d. JStr (ID d) \<in> set (concat (map relationship_targets ds))) coll"

fun spec_reachable :: "stored list \<Rightarrow> nat \<Rightarrow> stored list \<Rightarrow> stored list" where
  "spec_reachable coll 0 ds = follow_edges coll ds"
| "spec_reachable coll (Suc n) ds =
     (let r = spec_reachable coll n ds in r @ follow_edges coll r)"



definition accepted :: "UpdateOne \<Rightarrow> bool" where
  "accepted u = (case parse_update u of Inl e \<Rightarrow> False | Inr m \<Rightarrow> True)"

definition modifiers_of :: "UpdateOne \<Rightarrow> update_modifiers" where
  "modifiers_of u =
     (case parse_update u of
        Inl e \<Rightarrow> \<lparr> property_sets = [], relationship_sets = [] \<rparr>
      | Inr m \<Rightarrow> m)"


text \<open>
  The operations of \<^verbatim>\<open>add_documents\<close> that reach the documents: upserts that
  insert under the identifier they filter on, and that the store accepts.
\<close>

definition entity_operation :: "UpdateOne \<Rightarrow> bool" where
  "entity_operation u \<longleftrightarrow> upsert u \<and> setOnInsert_ID u = filter_ID u \<and> accepted u"

text \<open>The collection after one operation, whatever the counters of the result.\<close>

definition no_result :: BulkWriteResult where
  "no_result = \<lparr> matched_count = 0, modified_count = 0, upserted_count = 0 \<rparr>"

definition upsert_one :: "UpdateOne \<Rightarrow> stored list \<Rightarrow> stored list" where
  "upsert_one u coll =
     (case update_one u (no_result, coll) of Inl e \<Rightarrow> coll | Inr (r, coll') \<Rightarrow> coll')"

text \<open>
  The operations of a bulk that change the collection: none when the driver
  raises, else those before the first one the store refuses. A bulk succeeds
  when it is not empty, the driver encodes it and the store accepts all of it.
\<close>

definition sent_operations :: "UpdateOne list \<Rightarrow> UpdateOne list" where
  "sent_operations operations =
     (if operations = [] \<or> first_error (map operation_bson_error operations) \<noteq> None then []
      else takeWhile accepted operations)"

definition bulk_ok :: "UpdateOne list \<Rightarrow> bool" where
  "bulk_ok operations \<longleftrightarrow>
     operations \<noteq> [] \<and> first_error (map operation_bson_error operations) = None \<and>
     list_all accepted operations"

text \<open>
  All operations of a call of \<^verbatim>\<open>add_documents\<close> that change the collection, in
  order: the loop ends at the first document whose extraction or bulk write
  raises.
\<close>

fun applied_operations ::
  "(string \<Rightarrow> error + json entity list) \<Rightarrow> Document list \<Rightarrow> UpdateOne list" where
  "applied_operations extract_entities [] = []"
| "applied_operations extract_entities (doc # documents) =
     (case extract_entities (page_content doc) of
        Inl e \<Rightarrow> []
      | Inr entities \<Rightarrow>
          (let operations = map make_operation entities in
           if operations = [] then applied_operations extract_entities documents
           else if bulk_ok operations
                then operations @ applied_operations extract_entities documents
                else sent_operations operations))"

section \<open>A small graph\<close>

text \<open>
  Four stored entities in the shape of the example of \<^verbatim>\<open>prompts.py\<close>. The
  relationships form a cycle: Alice is employed by MongoDB, MongoDB is a
  partner of ACME, and ACME has Alice as an employee; Bob is employed by
  MongoDB too.
\<close>

definition alice :: stored where
  "alice = \<lparr> ID = ''Alice'', type = ''Person'',
             properties = [(''position'', [JStr ''CEO''])],
             relationships = [(''employer'', [JObj [(''target'', JStr ''MongoDB'')]])],
             oid = 1 \<rparr>"

definition bob :: stored where
  "bob = \<lparr> ID = ''Bob'', type = ''Person'',
           properties = [],
           relationships = [(''employer'', [JObj [(''target'', JStr ''MongoDB'')]])],
           oid = 2 \<rparr>"

definition mongodb :: stored where
  "mongodb = \<lparr> ID = ''MongoDB'', type = ''Organization'',
               properties = [],
               relationships = [(''partner'', [JObj [(''target'', JStr ''ACME'')]])],
               oid = 3 \<rparr>"

definition acme :: stored where
  "acme = \<lparr> ID = ''ACME'', type = ''Organization'',
            properties = [],
            relationships = [(''employee'', [JObj [(''target'', JStr ''Alice'')]])],
            oid = 4 \<rparr>"

definition graph_store :: MongoDBGraphStore where
  "graph_store = \<lparr> max_depth = 2, collection = [alice, bob, mongodb, acme] \<rparr>"

text \<open>
  An extraction model that knows a few texts. The first entity it finds for
  Alice carries another type than the stored one; the second gives her
  position as a list of values, the third as an \<^verbatim>\<open>$each\<close> document, and the
  fourth carries an integer beyond 64 bits.
\<close>

definition alice_extracted :: "json entity" where
  "alice_extracted =
     \<lparr> ID = ''Alice'', type = ''Robot'',
       properties = [(''position'', JStr ''CTO'')],
       relationships = [(''employer'', [JObj [(''target'', JStr ''ACME'')]])] \<rparr>"

definition alice_two_positions :: "json entity" where
  "alice_two_positions =
     \<lparr> ID = ''Alice'', type = ''Person'',
       properties = [(''position'', JArr [JStr ''CEO'', JStr ''Chair''])],
       relationships = [] \<rparr>"

definition alice_each_position :: "json entity" where
  "alice_each_position =
     \<lparr> ID = ''Alice'', type = ''Person'',
       properties = [(''position'', JObj [(''$each'', JArr [JStr ''CTO'', JStr ''Chair''])])],
       relationships = [] \<rparr>"

definition dave_extracted :: "json entity" where
  "dave_extracted =
     \<lparr> ID = ''Dave'', type = ''Person'',
       properties = [(''salary'', JNum (2 ^ 63))],
       relationships = [] \<rparr>"

definition carol_extracted :: "json entity" where
  "carol_extracted =
     \<lparr> ID = ''Carol'', type = ''Person'',
       properties = [(''position'', JStr ''CFO'')],
       relationships = [(''employer'', [JObj [(''target'', JStr ''ACME'')]])] \<rparr>"

definition extract_example :: "string \<Rightarrow> error + json entity list" where
  "extract_example text =
     (if text = ''Alice is CTO at ACME'' then Inr [alice_extracted]
      else if text = ''Alice is CEO and Chair'' then Inr [alice_two_positions]
      else if text = ''Alice: CTO, Chair'' then Inr [alice_each_position]
      else if text = ''Dave earns a lot'' then Inr [dave_extracted]
      else if text = ''Carol is CFO at ACME'' then Inr [carol_extracted]
      else if text = ''It rained'' then Inr []
      else Inl ExtractionError)"

lemmas example_defs = alice_def bob_def mongodb_def acme_def graph_store_def
  alice_extracted_def alice_two_positions_def alice_each_position_def dave_extracted_def
  carol_extracted_def extract_example_def

lemmas upsert_defs = add_documents_def bulk_write_def update_one_def make_operation_def
  operation_bson_error_def name_error_def int64_def parse_update_def plain_field_name_def
  apply_addToSet_def inserted_document_def fresh_oid_def addToSet_each_def addToSet_def

lemmas traversal_defs = related_entities_def py_or_def graphLookup_def startWith_def
  query_frontier_def addToVisitedAndFrontier_def doBreadthFirstSearch.simps

section \<open>Lemmas\<close>

subsection \<open>Arrays and fields under \<^verbatim>\<open>$addToSet\<close>\<close>










lemma ID_apply_addToSet: "ID (apply_addToSet m d) = ID d"
  by (simp add: apply_addToSet_def)

lemma type_apply_addToSet: "type (apply_addToSet m d) = type d"
  by (simp add: apply_addToSet_def)

lemma oid_apply_addToSet: "oid (apply_addToSet m d) = oid d"
  by (simp add: apply_addToSet_def)



lemma map_update_first:
  "(\<And>d. g (f d) = g d) \<Longrightarrow> map g (update_first P f coll) = map g coll"
  by (induction coll) auto

lemma find_None_iff_ID: "find (\<lambda>d. ID d = i) coll = None \<longleftrightarrow> i \<notin> ID ` set coll"
  by (auto simp: find_None_iff)

subsection \<open>Folds whose steps are absorbed\<close>

lemma fold_preserves:
  assumes mono: "\<And>y s. y \<in> A \<Longrightarrow> C s \<Longrightarrow> C (f y s)"
      and sub: "set ys \<subseteq> A"
      and init: "C s"
  shows "C (fold f ys s)"
  using sub init by (induction ys arbitrary: s) (auto intro: mono)




subsection \<open>One field\<close>






subsection \<open>One document\<close>







subsection \<open>The collection\<close>

lemma entity_operation_accepted: "entity_operation u \<Longrightarrow> parse_update u = Inr (modifiers_of u)"
  by (auto simp: entity_operation_def accepted_def modifiers_of_def split: sum.splits)

lemma accepted_parse: "accepted u \<Longrightarrow> parse_update u = Inr (modifiers_of u)"
  by (auto simp: accepted_def modifiers_of_def split: sum.splits)

lemma upsert_one_rejected: "\<not> accepted u \<Longrightarrow> upsert_one u coll = coll"
  by (auto simp: upsert_one_def update_one_def accepted_def split: sum.splits)

lemma upsert_one_found:
  assumes "accepted u" and "find (\<lambda>d. ID d = filter_ID u) coll = Some d"
  shows "upsert_one u coll =
           update_first (\<lambda>d. ID d = filter_ID u) (apply_addToSet (modifiers_of u)) coll"
  using assms by (simp add: upsert_one_def update_one_def accepted_parse)

lemma upsert_one_not_found:
  assumes "accepted u" and "find (\<lambda>d. ID d = filter_ID u) coll = None"
  shows "upsert_one u coll =
           (if upsert u then coll @ [inserted_document u (modifiers_of u) (fresh_oid coll)]
            else coll)"
  using assms by (simp add: upsert_one_def update_one_def accepted_parse)

lemma update_one_accepted:
  "update_one u (r, coll) = Inr (r', coll') \<Longrightarrow> accepted u \<and> coll' = upsert_one u coll"
  by (auto simp: upsert_one_def update_one_def accepted_def split: sum.splits option.splits if_splits)

lemma update_one_rejected: "update_one u (r, coll) = Inl e \<Longrightarrow> \<not> accepted u"
  by (auto simp: update_one_def accepted_def split: sum.splits)

lemma snd_execute_ordered:
  "snd (execute_ordered us (r, coll)) = fold upsert_one (takeWhile accepted us) coll"
proof (induction us arbitrary: r coll)
  case Nil
  show ?case by simp
next
  case (Cons u us)
  show ?case
  proof (cases "update_one u (r, coll)")
    case (Inl e)
    then show ?thesis using update_one_rejected [OF Inl] by simp
  next
    case (Inr rc)
    obtain r' coll' where rc: "rc = (r', coll')" by (cases rc)
    from update_one_accepted [OF Inr [unfolded rc]] Inr rc show ?thesis
      by (simp add: Cons.IH)
  qed
qed

lemma snd_bulk_write: "snd (bulk_write us coll) = fold upsert_one (sent_operations us) coll"
  by (auto simp: bulk_write_def sent_operations_def snd_execute_ordered split: option.splits)

lemma fst_execute_ordered:
  "(\<exists>r'. fst (execute_ordered us (r, coll)) = Inr r') \<longleftrightarrow> list_all accepted us"
proof (induction us arbitrary: r coll)
  case Nil
  show ?case by simp
next
  case (Cons u us)
  show ?case
  proof (cases "update_one u (r, coll)")
    case (Inl e)
    then show ?thesis using update_one_rejected [OF Inl] by simp
  next
    case (Inr rc)
    obtain r' coll' where rc: "rc = (r', coll')" by (cases rc)
    from update_one_accepted [OF Inr [unfolded rc]] Inr rc show ?thesis
      by (simp add: Cons.IH)
  qed
qed

lemma fst_bulk_write: "(\<exists>r. fst (bulk_write us coll) = Inr r) \<longleftrightarrow> bulk_ok us"
  using fst_execute_ordered [of us no_result coll]
  by (auto simp: bulk_write_def bulk_ok_def no_result_def split: option.splits)

lemma sent_operations_ok: "bulk_ok us \<Longrightarrow> sent_operations us = us"
  by (auto simp: bulk_ok_def sent_operations_def list_all_iff takeWhile_eq_all_conv)

lemma sent_operations_accepted: "u \<in> set (sent_operations us) \<Longrightarrow> accepted u \<and> u \<in> set us"
  by (auto simp: sent_operations_def split: if_splits dest: set_takeWhileD)









subsection \<open>The loop over documents\<close>

lemma bulk_write_cases:
  obtains (ok) r where "bulk_ok us" "bulk_write us coll = (Inr r, fold upsert_one us coll)"
        | (failed) e where "\<not> bulk_ok us"
            "bulk_write us coll = (Inl e, fold upsert_one (sent_operations us) coll)"
proof (cases "fst (bulk_write us coll)")
  case (Inl e)
  then have "\<not> bulk_ok us" using fst_bulk_write [of us coll] by auto
  moreover have "bulk_write us coll = (Inl e, fold upsert_one (sent_operations us) coll)"
    using Inl snd_bulk_write [of us coll] by (cases "bulk_write us coll") simp
  ultimately show ?thesis by (rule failed)
next
  case (Inr r)
  then have ok': "bulk_ok us" using fst_bulk_write [of us coll] by auto
  moreover have "bulk_write us coll = (Inr r, fold upsert_one us coll)"
    using Inr snd_bulk_write [of us coll] sent_operations_ok [OF ok']
    by (cases "bulk_write us coll") simp
  ultimately show ?thesis by (rule ok)
qed

lemma snd_add_documents_loop:
  "snd (add_documents_loop ex docs results coll) =
     fold upsert_one (applied_operations ex docs) coll"
proof (induction docs arbitrary: results coll)
  case Nil
  show ?case by simp
next
  case (Cons doc docs)
  show ?case
  proof (cases "ex (page_content doc)")
    case (Inl e)
    then show ?thesis by simp
  next
    case (Inr entities)
    show ?thesis
    proof (cases "entities = []")
      case True
      with Inr show ?thesis using Cons.IH [of results coll] by simp
    next
      case False
      show ?thesis
      proof (cases "map make_operation entities" coll rule: bulk_write_cases)
        case (ok r)
        with Inr False show ?thesis
          using Cons.IH [of "results @ [r]" "fold upsert_one (map make_operation entities) coll"]
          by simp
      next
        case (failed e)
        with Inr False show ?thesis by simp
      qed
    qed
  qed
qed

lemma collection_add_documents:
  "collection (snd (add_documents ex self documents)) =
     fold upsert_one (applied_operations ex (unpack documents)) (collection self)"
  by (simp add: add_documents_def unpack_def Let_def case_prod_beta snd_add_documents_loop)


lemma entity_operation_make:
  "accepted (make_operation e) \<Longrightarrow> entity_operation (make_operation e)"
  by (simp add: entity_operation_def make_operation_def)

lemma applied_operations_from_entities:
  "u \<in> set (applied_operations ex docs) \<Longrightarrow>
   accepted u \<and> (\<exists>doc \<in> set docs. \<exists>e \<in> set (entities_of ex doc). u = make_operation e)"
proof (induction docs)
  case Nil
  then show ?case by simp
next
  case (Cons doc docs)
  show ?case
  proof (cases "ex (page_content doc)")
    case (Inl e)
    with Cons.prems show ?thesis by simp
  next
    case (Inr entities)
    then have ents: "entities_of ex doc = entities" by (simp add: entities_of_def)
    consider (here) "u \<in> set (map make_operation entities)" "accepted u"
      | (later) "u \<in> set (applied_operations ex docs)"
      using Cons.prems Inr
      by (auto simp: Let_def bulk_ok_def list_all_iff split: if_splits
          dest: sent_operations_accepted)
    then show ?thesis
    proof cases
      case here
      then show ?thesis by (auto simp: ents)
    next
      case later
      with Cons.IH show ?thesis by auto
    qed
  qed
qed

lemma applied_operations_entity:
  "u \<in> set (applied_operations ex docs) \<Longrightarrow> entity_operation u"
  by (auto dest!: applied_operations_from_entities intro: entity_operation_make)


subsection \<open>Uniqueness of identifiers\<close>

lemma distinct_ID_upsert_one:
  assumes "entity_operation u" and "distinct (map ID coll)"
  shows "distinct (map ID (upsert_one u coll))"
proof (cases "find (\<lambda>d. ID d = filter_ID u) coll")
  case None
  have acc: "accepted u" using assms(1) by (simp add: entity_operation_def)
  from None have "filter_ID u \<notin> ID ` set coll" by (simp add: find_None_iff_ID)
  with assms show ?thesis
    by (simp add: upsert_one_not_found [OF acc None] inserted_document_def ID_apply_addToSet
        entity_operation_def)
next
  case (Some d)
  have acc: "accepted u" using assms(1) by (simp add: entity_operation_def)
  from assms(2) show ?thesis
    by (simp add: upsert_one_found [OF acc Some] map_update_first ID_apply_addToSet)
qed

subsection \<open>Documents without entities\<close>

lemma add_documents_loop_append:
  "add_documents_loop ex (docs1 @ docs2) results coll =
     (case add_documents_loop ex docs1 results coll of
        (Inl e, coll') \<Rightarrow> (Inl e, coll')
      | (Inr results', coll') \<Rightarrow> add_documents_loop ex docs2 results' coll')"
  by (induction docs1 arbitrary: results coll) (auto split: sum.splits prod.splits)

lemma add_documents_loop_skip:
  "ex (page_content doc) = Inr [] \<Longrightarrow>
   add_documents_loop ex (doc # docs) results coll = add_documents_loop ex docs results coll"
  by simp

lemma length_results_loop:
  "add_documents_loop ex docs results coll = (Inr rs, coll') \<Longrightarrow>
   length rs = length results + length (filter (\<lambda>d. ex (page_content d) \<noteq> Inr []) docs)"
proof (induction docs arbitrary: results coll)
  case Nil
  then show ?case by simp
next
  case (Cons doc docs)
  then show ?case
    by (cases "ex (page_content doc)") (auto split: if_splits prod.splits sum.splits)
qed

lemma add_documents_result_count:
  assumes "fst (add_documents ex self documents) = Inr rs"
  shows "length rs = length (filter (\<lambda>d. ex (page_content d) \<noteq> Inr []) (unpack documents))"
proof -
  obtain res coll' where loop:
    "add_documents_loop ex (unpack documents) [] (collection self) = (res, coll')"
    by (cases "add_documents_loop ex (unpack documents) [] (collection self)")
  with assms have "res = Inr rs"
    by (simp add: add_documents_def unpack_def Let_def)
  with loop length_results_loop [of ex "unpack documents" "[]" "collection self" rs coll']
  show ?thesis by simp
qed

subsection \<open>What a merge leaves under an identifier\<close>







subsection \<open>The modifiers of an accepted operation\<close>





subsection \<open>A call that returns\<close>



subsection \<open>Documents stay where they are\<close>

lemma prefix_upsert_one:
  assumes "\<And>m d. g (apply_addToSet m d) = g d"
  shows "prefix (map g coll) (map g (upsert_one u coll))"
proof (cases "accepted u")
  case False
  then show ?thesis by (simp add: upsert_one_rejected)
next
  case acc: True
  show ?thesis
  proof (cases "find (\<lambda>d. ID d = filter_ID u) coll")
    case None
    then show ?thesis by (simp add: upsert_one_not_found [OF acc None])
  next
    case (Some d)
    then show ?thesis by (simp add: upsert_one_found [OF acc Some] map_update_first assms)
  qed
qed

lemma prefix_fold_upsert_one:
  assumes "\<And>m d. g (apply_addToSet m d) = g d"
  shows "prefix (map g coll) (map g (fold upsert_one us coll))"
proof (induction us arbitrary: coll)
  case Nil
  show ?case by simp
next
  case (Cons u us)
  have "prefix (map g coll) (map g (upsert_one u coll))"
    by (rule prefix_upsert_one [OF assms])
  also have "prefix \<dots> (map g (fold upsert_one us (upsert_one u coll)))"
    by (rule Cons.IH)
  finally show ?case by simp
qed





lemma new_documents_fold:
  assumes "\<And>u. u \<in> set us \<Longrightarrow> entity_operation u"
  shows "set (drop (length coll) (map (\<lambda>d. (ID d, type d)) (fold upsert_one us coll))) \<subseteq>
         (\<lambda>u. (setOnInsert_ID u, setOnInsert_type u)) `
           {u \<in> set us. setOnInsert_ID u \<notin> ID ` set coll}"
  using assms
proof (induction us arbitrary: coll)
  case Nil
  show ?case by simp
next
  case (Cons u us)
  have u: "entity_operation u" and us: "\<And>x. x \<in> set us \<Longrightarrow> entity_operation x"
    using Cons.prems by auto
  have acc: "accepted u" and ups: "upsert u" and ids: "setOnInsert_ID u = filter_ID u"
    using u by (simp_all add: entity_operation_def)
  let ?g = "\<lambda>d. (ID d, type d)"
  let ?c1 = "upsert_one u coll"
  let ?c2 = "fold upsert_one us ?c1"
  have IH: "set (drop (length ?c1) (map ?g ?c2)) \<subseteq>
      (\<lambda>u. (setOnInsert_ID u, setOnInsert_type u)) `
        {x \<in> set us. setOnInsert_ID x \<notin> ID ` set ?c1}"
    by (rule Cons.IH [OF us])
  show ?case
  proof (cases "find (\<lambda>d. ID d = filter_ID u) coll")
    case (Some d)
    have c1: "map ?g ?c1 = map ?g coll" "length ?c1 = length coll" "ID ` set ?c1 = ID ` set coll"
    proof -
      show a: "map ?g ?c1 = map ?g coll"
        by (simp add: upsert_one_found [OF acc Some] map_update_first ID_apply_addToSet
            type_apply_addToSet)
      from a have "length (map ?g ?c1) = length (map ?g coll)" by (simp only:)
      then show "length ?c1 = length coll" by simp
      have "map ID ?c1 = map ID coll"
        by (simp add: upsert_one_found [OF acc Some] map_update_first ID_apply_addToSet)
      then have "set (map ID ?c1) = set (map ID coll)" by (simp only:)
      then show "ID ` set ?c1 = ID ` set coll" by simp
    qed
    have "fold upsert_one (u # us) coll = ?c2" by simp
    with IH show ?thesis by (auto simp: c1)
  next
    case None
    then have new: "filter_ID u \<notin> ID ` set coll" by (simp add: find_None_iff_ID)
    let ?ins = "inserted_document u (modifiers_of u) (fresh_oid coll)"
    have c1: "?c1 = coll @ [?ins]" by (simp add: upsert_one_not_found [OF acc None] ups)
    have gins: "?g ?ins = (setOnInsert_ID u, setOnInsert_type u)"
      by (simp add: inserted_document_def ID_apply_addToSet type_apply_addToSet)
    have pre: "prefix (map ?g ?c1) (map ?g ?c2)"
      by (rule prefix_fold_upsert_one) (simp add: ID_apply_addToSet type_apply_addToSet)
    then obtain zs where zs: "map ?g ?c2 = map ?g ?c1 @ zs" by (auto simp: prefix_def)
    have m1: "map ?g ?c1 = map ?g coll @ [?g ?ins]" by (simp add: c1)
    have d1: "drop (length coll) (map ?g ?c2) = ?g ?ins # zs"
      by (simp only: zs m1) simp
    have d2: "drop (length ?c1) (map ?g ?c2) = zs"
      by (simp only: zs) simp
    have zs_sub: "set zs \<subseteq> (\<lambda>u. (setOnInsert_ID u, setOnInsert_type u)) `
        {x \<in> set (u # us). setOnInsert_ID x \<notin> ID ` set coll}"
      using IH unfolding d2 by (auto simp: c1)
    have mem_u: "(setOnInsert_ID u, setOnInsert_type u) \<in>
        (\<lambda>u. (setOnInsert_ID u, setOnInsert_type u)) `
        {x \<in> set (u # us). setOnInsert_ID x \<notin> ID ` set coll}"
      using new ids by (intro image_eqI [where x = u]) auto
    have "fold upsert_one (u # us) coll = ?c2" by simp
    then have "drop (length coll) (map ?g (fold upsert_one (u # us) coll)) = ?g ?ins # zs"
      using d1 by (simp only:)
    with zs_sub mem_u show ?thesis by (simp only: gins set_simps insert_subset)
  qed
qed

subsection \<open>The stages of the pipeline\<close>

lemma ID_truncate: "ID (entity.truncate d) = ID d"
  by (simp add: entity.truncate_def)

lemma group_first_props:
  "distinct (map ID (group_first seen ds)) \<and>
   set (map ID (group_first seen ds)) \<inter> set seen = {} \<and>
   set (group_first seen ds) \<subseteq> set ds"
proof (induction ds arbitrary: seen)
  case Nil
  show ?case by simp
next
  case (Cons d ds)
  show ?case
  proof (cases "ID d \<in> set seen")
    case True
    with Cons.IH [of seen] show ?thesis by auto
  next
    case False
    with Cons.IH [of "ID d # seen"] show ?thesis by auto
  qed
qed

lemma visited_addToVisitedAndFrontier:
  "visited (snd (addToVisitedAndFrontier x p)) =
     (if oid x \<in> oid ` set (visited (snd p)) then visited (snd p) else visited (snd p) @ [x])"
  by (cases p) (simp add: addToVisitedAndFrontier_def)

lemma frontier_addToVisitedAndFrontier:
  "frontier (snd (addToVisitedAndFrontier x p)) =
     (if oid x \<in> oid ` set (visited (snd p)) then frontier (snd p)
      else frontier (snd p) @ [JStr (ID x)])"
  by (cases p) (simp add: addToVisitedAndFrontier_def)

lemma fold_addToVisited_subset:
  "set (visited (snd (fold addToVisitedAndFrontier xs p))) \<subseteq> set (visited (snd p)) \<union> set xs"
proof (induction xs arbitrary: p)
  case Nil
  show ?case by simp
next
  case (Cons x xs)
  show ?case
    using Cons.IH [of "addToVisitedAndFrontier x p"]
    by (auto simp: visited_addToVisitedAndFrontier split: if_splits)
qed

lemma fold_addToVisited_oids:
  "oid ` set (visited (snd (fold addToVisitedAndFrontier xs p))) =
     oid ` set (visited (snd p)) \<union> oid ` set xs"
proof (induction xs arbitrary: p)
  case Nil
  show ?case by simp
next
  case (Cons x xs)
  show ?case
    unfolding fold_simps Cons.IH
    by (auto simp: visited_addToVisitedAndFrontier)
qed

lemma fold_addToVisited_distinct:
  "distinct (map oid (visited (snd p))) \<Longrightarrow>
   distinct (map oid (visited (snd (fold addToVisitedAndFrontier xs p))))"
proof (induction xs arbitrary: p)
  case Nil
  then show ?case by simp
next
  case (Cons x xs)
  have "distinct (map oid (visited (snd (addToVisitedAndFrontier x p))))"
    using Cons.prems by (simp add: visited_addToVisitedAndFrontier)
  then show ?case using Cons.IH by simp
qed

lemma fold_addToVisited_frontier:
  "set (frontier (snd (fold addToVisitedAndFrontier xs p))) \<subseteq>
     set (frontier (snd p)) \<union> (\<lambda>d. JStr (ID d)) ` set xs"
proof (induction xs arbitrary: p)
  case Nil
  show ?case by simp
next
  case (Cons x xs)
  show ?case
    using Cons.IH [of "addToVisitedAndFrontier x p"]
    by (auto simp: frontier_addToVisitedAndFrontier split: if_splits)
qed

lemma doBreadthFirstSearch_visited:
  "set (visited (doBreadthFirstSearch coll maxDepth depth s)) \<subseteq> set (visited s) \<union> set coll \<and>
   (distinct (map oid (visited s)) \<longrightarrow>
      distinct (map oid (visited (doBreadthFirstSearch coll maxDepth depth s))))"
proof (induction coll maxDepth depth s rule: doBreadthFirstSearch.induct)
  case (1 coll maxDepth depth s)
  obtain again s' where round:
    "fold addToVisitedAndFrontier (query_frontier coll (frontier s))
       (False, s\<lparr> frontier := [] \<rparr>) = (again, s')"
    by (cases "fold addToVisitedAndFrontier (query_frontier coll (frontier s))
       (False, s\<lparr> frontier := [] \<rparr>)")
  have "set (visited s') \<subseteq> set (visited s) \<union> set (query_frontier coll (frontier s))"
    using fold_addToVisited_subset [of "query_frontier coll (frontier s)"
        "(False, s\<lparr> frontier := [] \<rparr>)"]
    unfolding round by simp
  then have sub: "set (visited s') \<subseteq> set (visited s) \<union> set coll"
    by (auto simp: query_frontier_def)
  have dist: "distinct (map oid (visited s)) \<Longrightarrow> distinct (map oid (visited s'))"
    using fold_addToVisited_distinct [of "(False, s\<lparr> frontier := [] \<rparr>)"
        "query_frontier coll (frontier s)"]
    unfolding round by simp
  show ?case
  proof (cases "again \<and> depth + 1 \<le> maxDepth")
    case True
    have eq: "doBreadthFirstSearch coll maxDepth depth s =
              doBreadthFirstSearch coll maxDepth (depth + 1) s'"
      using True round by (subst doBreadthFirstSearch.simps) simp
    from "1.IH" [OF round [symmetric] True]
    have "set (visited (doBreadthFirstSearch coll maxDepth (depth + 1) s')) \<subseteq>
            set (visited s') \<union> set coll \<and>
          (distinct (map oid (visited s')) \<longrightarrow>
            distinct (map oid (visited (doBreadthFirstSearch coll maxDepth (depth + 1) s'))))"
      by simp
    with sub dist show ?thesis unfolding eq by blast
  next
    case False
    have eq: "doBreadthFirstSearch coll maxDepth depth s = s'"
      using False round by (subst doBreadthFirstSearch.simps) auto
    from sub dist show ?thesis unfolding eq by blast
  qed
qed

lemma graphLookup_subset: "set (graphLookup coll maxDepth start) \<subseteq> set coll"
  using doBreadthFirstSearch_visited [of coll maxDepth 0
      "\<lparr> visited = [], frontier = (case start of JArr vs \<Rightarrow> vs | v \<Rightarrow> [v]) \<rparr>"]
  by (simp add: graphLookup_def)

lemma graphLookup_distinct: "distinct (map oid (graphLookup coll maxDepth start))"
  using doBreadthFirstSearch_visited [of coll maxDepth 0
      "\<lparr> visited = [], frontier = (case start of JArr vs \<Rightarrow> vs | v \<Rightarrow> [v]) \<rparr>"]
  by (simp add: graphLookup_def)

lemma related_entities_ok:
  assumes "0 \<le> py_or max_depth0 (max_depth self)"
      and "py_or max_depth0 (max_depth self) < 2 ^ 63"
  shows "related_entities self starting_entities max_depth0 =
     Inr (map entity.truncate (group_first []
       (concat (map (\<lambda>d. graphLookup (collection self) (py_or max_depth0 (max_depth self))
                         (startWith d))
          (filter (\<lambda>d. ID d \<in> set starting_entities) (collection self))))))"
  using assms by (simp add: related_entities_def Let_def int64_def)

subsection \<open>The depth never matters\<close>

text \<open>
  Once the direct targets of a seed are found, the next round of the search
  queries the identifiers of the documents just visited and finds those
  documents again: the result never depends on the depth.
\<close>

lemma fold_addToVisited_nothing_new:
  "oid ` set xs \<subseteq> oid ` set (visited (snd p)) \<Longrightarrow> fold addToVisitedAndFrontier xs p = p"
proof (induction xs arbitrary: p)
  case Nil
  show ?case by simp
next
  case (Cons x xs)
  then have "addToVisitedAndFrontier x p = p"
    by (cases p) (auto simp: addToVisitedAndFrontier_def)
  with Cons.prems Cons.IH [of p] show ?case by simp
qed

lemma second_round_finds_nothing:
  assumes round: "fold addToVisitedAndFrontier (query_frontier coll fr)
             (False, \<lparr> visited = [], frontier = [] \<rparr>) = (again, s')"
  shows "fold addToVisitedAndFrontier (query_frontier coll (frontier s'))
           (False, s'\<lparr> frontier := [] \<rparr>) = (False, s'\<lparr> frontier := [] \<rparr>)"
proof (rule fold_addToVisited_nothing_new)
  have fr: "set (frontier s') \<subseteq> (\<lambda>d. JStr (ID d)) ` set (query_frontier coll fr)"
    using fold_addToVisited_frontier [of "query_frontier coll fr"
        "(False, \<lparr> visited = [], frontier = [] \<rparr>)"]
    unfolding round by simp
  have oids: "oid ` set (visited s') = oid ` set (query_frontier coll fr)"
    using fold_addToVisited_oids [of "query_frontier coll fr"
        "(False, \<lparr> visited = [], frontier = [] \<rparr>)"]
    unfolding round by simp
  have "set (query_frontier coll (frontier s')) \<subseteq> set (query_frontier coll fr)"
  proof
    fix d assume "d \<in> set (query_frontier coll (frontier s'))"
    then have d: "d \<in> set coll" "JStr (ID d) \<in> set (frontier s')"
      by (auto simp: query_frontier_def)
    with fr obtain x where "x \<in> set (query_frontier coll fr)" "ID d = ID x" by auto
    then have "JStr (ID d) \<in> set fr" by (auto simp: query_frontier_def)
    with d(1) show "d \<in> set (query_frontier coll fr)" by (simp add: query_frontier_def)
  qed
  then show "oid ` set (query_frontier coll (frontier s'))
        \<subseteq> oid ` set (visited (snd (False, s'\<lparr> frontier := [] \<rparr>)))"
    using oids by auto
qed

lemma doBreadthFirstSearch_depth_irrelevant:
  "visited (doBreadthFirstSearch coll maxDepth 0 \<lparr> visited = [], frontier = fr \<rparr>) =
   visited (doBreadthFirstSearch coll 0 0 \<lparr> visited = [], frontier = fr \<rparr>)"
proof -
  obtain again s' where round:
    "fold addToVisitedAndFrontier (query_frontier coll fr)
       (False, \<lparr> visited = [], frontier = [] \<rparr>) = (again, s')"
    by (cases "fold addToVisitedAndFrontier (query_frontier coll fr)
       (False, \<lparr> visited = [], frontier = [] \<rparr>)")
  have zero: "doBreadthFirstSearch coll 0 0 \<lparr> visited = [], frontier = fr \<rparr> = s'"
    by (subst doBreadthFirstSearch.simps) (simp add: round)
  have next_round: "doBreadthFirstSearch coll maxDepth 1 s' = s'\<lparr> frontier := [] \<rparr>"
    by (subst doBreadthFirstSearch.simps) (simp add: second_round_finds_nothing [OF round])
  have "visited (doBreadthFirstSearch coll maxDepth 0 \<lparr> visited = [], frontier = fr \<rparr>) = visited s'"
  proof (cases "again \<and> 1 \<le> maxDepth")
    case True
    then have "doBreadthFirstSearch coll maxDepth 0 \<lparr> visited = [], frontier = fr \<rparr> =
               doBreadthFirstSearch coll maxDepth 1 s'"
      by (subst doBreadthFirstSearch.simps) (simp add: round)
    then show ?thesis by (simp add: next_round)
  next
    case False
    then have "doBreadthFirstSearch coll maxDepth 0 \<lparr> visited = [], frontier = fr \<rparr> = s'"
      by (subst doBreadthFirstSearch.simps) (auto simp: round)
    then show ?thesis by simp
  qed
  then show ?thesis by (simp add: zero)
qed

lemma graphLookup_depth_irrelevant:
  "graphLookup coll maxDepth start = graphLookup coll 0 start"
  unfolding graphLookup_def by (rule doBreadthFirstSearch_depth_irrelevant)

lemma related_entities_depth_irrelevant:
  assumes "0 \<le> py_or max_depth0 (max_depth self)"
      and "py_or max_depth0 (max_depth self) < 2 ^ 63"
  shows "related_entities self starting_entities max_depth0 =
         related_entities (self\<lparr> max_depth := 0 \<rparr>) starting_entities 0"
proof -
  have "graphLookup (collection self) (py_or max_depth0 (max_depth self)) start =
        graphLookup (collection self) 0 start" for start
    by (rule graphLookup_depth_irrelevant)
  then show ?thesis using assms
    by (simp add: related_entities_def Let_def py_or_def int64_def)
qed

section \<open>Calls that raise\<close>

text \<open>
  Carol is inserted, then the bulk that holds Dave's salary of \<open>2 ^ 63\<close> is
  refused by the driver: the call raises and Carol stays. A depth of
  \<open>2 ^ 63\<close> is refused by the driver as well, a negative one by the store.
\<close>

lemma out_of_range_integer_raises:
  "fst (add_documents extract_example graph_store
     (Many [\<lparr> page_content = ''Carol is CFO at ACME'' \<rparr>, \<lparr> page_content = ''Dave earns a lot'' \<rparr>])) =
     Inl OverflowError \<and>
   map ID (collection (snd (add_documents extract_example graph_store
     (Many [\<lparr> page_content = ''Carol is CFO at ACME'' \<rparr>, \<lparr> page_content = ''Dave earns a lot'' \<rparr>])))) =
     [''Alice'', ''Bob'', ''MongoDB'', ''ACME'', ''Carol'']"
  by (simp add: upsert_defs example_defs)

lemma key_with_dot_is_refused:
  "parse_update (make_operation
     \<lparr> ID = ''Alice'', type = ''Person'', properties = [(''tags.x'', JStr ''a'')],
       relationships = [] \<rparr>) = Inl BulkWriteError"
  by (simp add: parse_update_def make_operation_def plain_field_name_def)

lemma depth_out_of_range_raises:
  "related_entities graph_store [] (2 ^ 63) = Inl OverflowError \<and>
   related_entities graph_store [] (- 1) = Inl OperationFailure"
  by (simp add: related_entities_def py_or_def int64_def)

section \<open>Properties of \<^verbatim>\<open>add_documents\<close>\<close>




text \<open>
  Claim C2. Whatever a call of \<^verbatim>\<open>add_documents\<close> extracts and whether it returns
  or raises, every stored document keeps its place, its \<^verbatim>\<open>_id\<close>, its \<^verbatim>\<open>ID\<close>
  and its \<^verbatim>\<open>type\<close>, also when an entity with the same identifier carries
  another type. The two fields are written only in documents the call
  inserts: each of these carries the \<^verbatim>\<open>ID\<close> and \<^verbatim>\<open>type\<close> of an extracted entity
  whose identifier no stored document had.
\<close>

theorem merge_keeps_ID_and_type:
  "prefix (map (\<lambda>d. (oid d, ID d, type d)) (collection self))
     (map (\<lambda>d. (oid d, ID d, type d))
        (collection (snd (add_documents extract_entities self documents)))) \<and>
   set (drop (length (collection self))
          (map (\<lambda>d. (ID d, type d))
             (collection (snd (add_documents extract_entities self documents))))) \<subseteq>
     (\<lambda>e. (ID e, type e)) `
       {e \<in> set (extracted_entities extract_entities documents).
          ID e \<notin> ID ` set (collection self)}"
proof
  let ?us = "applied_operations extract_entities (unpack documents)"
  show "prefix (map (\<lambda>d. (oid d, ID d, type d)) (collection self))
     (map (\<lambda>d. (oid d, ID d, type d))
        (collection (snd (add_documents extract_entities self documents))))"
    unfolding collection_add_documents
    by (rule prefix_fold_upsert_one)
      (simp add: ID_apply_addToSet type_apply_addToSet oid_apply_addToSet)
  have "set (drop (length (collection self))
          (map (\<lambda>d. (ID d, type d)) (fold upsert_one ?us (collection self)))) \<subseteq>
        (\<lambda>u. (setOnInsert_ID u, setOnInsert_type u)) `
          {u \<in> set ?us. setOnInsert_ID u \<notin> ID ` set (collection self)}"
    by (rule new_documents_fold) (rule applied_operations_entity)
  also have "\<dots> \<subseteq> (\<lambda>e. (ID e, type e)) `
       {e \<in> set (extracted_entities extract_entities documents).
          ID e \<notin> ID ` set (collection self)}"
  proof
    fix p
    assume "p \<in> (\<lambda>u. (setOnInsert_ID u, setOnInsert_type u)) `
          {u \<in> set ?us. setOnInsert_ID u \<notin> ID ` set (collection self)}"
    then obtain u where u: "u \<in> set ?us" "setOnInsert_ID u \<notin> ID ` set (collection self)"
      "p = (setOnInsert_ID u, setOnInsert_type u)" by auto
    from applied_operations_from_entities [OF u(1)] obtain doc e where
      e: "doc \<in> set (unpack documents)" "e \<in> set (entities_of extract_entities doc)"
         "u = make_operation e" by auto
    then have "e \<in> set (extracted_entities extract_entities documents)"
      by (auto simp: extracted_entities_def)
    moreover have "setOnInsert_ID u = ID e" "setOnInsert_type u = type e"
      by (simp_all add: e(3) make_operation_def)
    ultimately show "p \<in> (\<lambda>e. (ID e, type e)) `
       {e \<in> set (extracted_entities extract_entities documents).
          ID e \<notin> ID ` set (collection self)}"
      using u by auto
  qed
  finally show "set (drop (length (collection self))
          (map (\<lambda>d. (ID d, type d))
             (collection (snd (add_documents extract_entities self documents))))) \<subseteq>
     (\<lambda>e. (ID e, type e)) `
       {e \<in> set (extracted_entities extract_entities documents).
          ID e \<notin> ID ` set (collection self)}"
    unfolding collection_add_documents .
qed

text \<open>Alice stays a Person though the extraction calls her a Robot; Carol is new.\<close>

theorem merge_keeps_ID_and_type_witness:
  "type alice_extracted \<noteq> type alice \<and>
   map (\<lambda>d. (ID d, type d)) (collection graph_store) =
     [(''Alice'', ''Person''), (''Bob'', ''Person''), (''MongoDB'', ''Organization''),
      (''ACME'', ''Organization'')] \<and>
   prefix (map (\<lambda>d. (oid d, ID d, type d)) (collection graph_store))
     (map (\<lambda>d. (oid d, ID d, type d))
        (collection (snd (add_documents extract_example graph_store
           (Many [\<lparr> page_content = ''Alice is CTO at ACME'' \<rparr>,
                  \<lparr> page_content = ''Carol is CFO at ACME'' \<rparr>]))))) \<and>
   set (drop (length (collection graph_store))
          (map (\<lambda>d. (ID d, type d))
             (collection (snd (add_documents extract_example graph_store
                (Many [\<lparr> page_content = ''Alice is CTO at ACME'' \<rparr>,
                       \<lparr> page_content = ''Carol is CFO at ACME'' \<rparr>])))))) \<subseteq>
     (\<lambda>e. (ID e, type e)) `
       {e \<in> set (extracted_entities extract_example
                 (Many [\<lparr> page_content = ''Alice is CTO at ACME'' \<rparr>,
                        \<lparr> page_content = ''Carol is CFO at ACME'' \<rparr>])).
          ID e \<notin> ID ` set (collection graph_store)}"
proof -
  have a: "type alice_extracted \<noteq> type alice"
    by (simp add: example_defs)
  have b: "map (\<lambda>d. (ID d, type d)) (collection graph_store) =
     [(''Alice'', ''Person''), (''Bob'', ''Person''), (''MongoDB'', ''Organization''),
      (''ACME'', ''Organization'')]"
    by (simp add: example_defs)
  from a b
    merge_keeps_ID_and_type [where extract_entities = extract_example and self = graph_store
      and documents = "Many [\<lparr> page_content = ''Alice is CTO at ACME'' \<rparr>,
                             \<lparr> page_content = ''Carol is CFO at ACME'' \<rparr>]"]
  show ?thesis by blast
qed


text \<open>
  Claim C4. If no two documents of the collection share an \<^verbatim>\<open>ID\<close>, then no
  two do after \<^verbatim>\<open>add_documents\<close>. (Requests are served one after the other,
  as a single client sees them.)
\<close>

theorem add_documents_preserves_unique_ID:
  assumes "distinct (map ID (collection self))"
  shows "distinct (map ID (collection (snd (add_documents extract_entities self documents))))"
  unfolding collection_add_documents
proof (rule fold_preserves [where A = "Collect entity_operation"])
  show "\<And>y s. y \<in> Collect entity_operation \<Longrightarrow> distinct (map ID s) \<Longrightarrow>
          distinct (map ID (upsert_one y s))"
    by (simp add: distinct_ID_upsert_one)
  show "set (applied_operations extract_entities (unpack documents)) \<subseteq> Collect entity_operation"
    by (auto dest: applied_operations_entity)
  show "distinct (map ID (collection self))" by (rule assms)
qed

text \<open>One document merges into Alice, the other inserts Carol.\<close>

theorem add_documents_preserves_unique_ID_witness:
  "distinct (map ID (collection graph_store)) \<and>
   distinct (map ID (collection (snd (add_documents extract_example graph_store
     (Many [\<lparr> page_content = ''Alice is CTO at ACME'' \<rparr>,
            \<lparr> page_content = ''Carol is CFO at ACME'' \<rparr>])))))"
proof -
  have h: "distinct (map ID (collection graph_store))"
    by (simp add: example_defs)
  show ?thesis
    using h add_documents_preserves_unique_ID [OF h] by blast
qed

text \<open>
  Claim C10. A document whose extraction yields no entity causes no write and
  no entry in the list of results: alone it returns the empty list and the
  store as it was, and among other documents the call behaves as if the
  document were not there. Whenever such a document is among the input and
  the call succeeds, the list of results is shorter than the list of documents.
\<close>

theorem empty_extraction_writes_nothing:
  assumes "extract_entities (page_content doc) = Inr []"
  shows "add_documents extract_entities self (Single doc) = (Inr [], self) \<and>
         add_documents extract_entities self (Many (docs1 @ doc # docs2)) =
           add_documents extract_entities self (Many (docs1 @ docs2)) \<and>
         (\<forall>rs. fst (add_documents extract_entities self (Many (docs1 @ doc # docs2))) = Inr rs \<longrightarrow>
            length rs < length (docs1 @ doc # docs2))"
proof (intro conjI allI impI)
  show "add_documents extract_entities self (Single doc) = (Inr [], self)"
    using assms by (simp add: add_documents_def)
  have "add_documents_loop extract_entities (docs1 @ doc # docs2) [] (collection self) =
        add_documents_loop extract_entities (docs1 @ docs2) [] (collection self)"
    using assms
    by (simp add: add_documents_loop_append [of _ docs1] split: prod.splits sum.splits)
  then show "add_documents extract_entities self (Many (docs1 @ doc # docs2)) =
        add_documents extract_entities self (Many (docs1 @ docs2))"
    by (simp add: add_documents_def)
  fix rs
  assume "fst (add_documents extract_entities self (Many (docs1 @ doc # docs2))) = Inr rs"
  then have "length rs =
      length (filter (\<lambda>d. extract_entities (page_content d) \<noteq> Inr []) (docs1 @ doc # docs2))"
    using add_documents_result_count [of extract_entities self "Many (docs1 @ doc # docs2)" rs]
    by (simp add: unpack_def)
  also have "\<dots> = length (filter (\<lambda>d. extract_entities (page_content d) \<noteq> Inr []) docs1) +
      length (filter (\<lambda>d. extract_entities (page_content d) \<noteq> Inr []) docs2)"
    using assms by simp
  also have "\<dots> \<le> length docs1 + length docs2"
    by (intro add_mono length_filter_le)
  finally show "length rs < length (docs1 @ doc # docs2)" by simp
qed

theorem empty_extraction_writes_nothing_witness:
  "extract_example (page_content \<lparr> page_content = ''It rained'' \<rparr>) = Inr [] \<and>
   add_documents extract_example graph_store (Single \<lparr> page_content = ''It rained'' \<rparr>) =
     (Inr [], graph_store) \<and>
   add_documents extract_example graph_store
     (Many [\<lparr> page_content = ''Carol is CFO at ACME'' \<rparr>, \<lparr> page_content = ''It rained'' \<rparr>]) =
   add_documents extract_example graph_store
     (Many [\<lparr> page_content = ''Carol is CFO at ACME'' \<rparr>]) \<and>
   fst (add_documents extract_example graph_store
     (Many [\<lparr> page_content = ''Carol is CFO at ACME'' \<rparr>, \<lparr> page_content = ''It rained'' \<rparr>])) =
     Inr [\<lparr> matched_count = 0, modified_count = 0, upserted_count = 1 \<rparr>] \<and>
   length [\<lparr> matched_count = 0, modified_count = 0, upserted_count = (1::nat) \<rparr>] <
     length [\<lparr> page_content = ''Carol is CFO at ACME'' \<rparr>, \<lparr> page_content = ''It rained'' \<rparr>]"
proof -
  have ex: "extract_example (page_content \<lparr> page_content = ''It rained'' \<rparr>) = Inr []"
    by (simp add: extract_example_def)
  have run: "fst (add_documents extract_example graph_store
     (Many [\<lparr> page_content = ''Carol is CFO at ACME'' \<rparr>, \<lparr> page_content = ''It rained'' \<rparr>])) =
     Inr [\<lparr> matched_count = 0, modified_count = 0, upserted_count = 1 \<rparr>]"
    by (simp add: upsert_defs example_defs)
  show ?thesis
    using ex run
      empty_extraction_writes_nothing [where extract_entities = extract_example
        and doc = "\<lparr> page_content = ''It rained'' \<rparr>" and self = graph_store
        and ?docs1.0 = "[\<lparr> page_content = ''Carol is CFO at ACME'' \<rparr>]" and ?docs2.0 = "[]"]
    by simp
qed

section \<open>Properties of \<^verbatim>\<open>related_entities\<close>\<close>

text \<open>
  Claim C5 states that \<^verbatim>\<open>related_entities\<close> returns the entities reachable from
  the seeds along relationship targets, up to the depth limit. The pipeline
  connects from the field \<^verbatim>\<open>ID\<close> to the field \<^verbatim>\<open>ID\<close>, so a document that was
  found leads to itself only and the search ends with the direct targets of
  the seeds, whatever the depth (lemma \<open>related_entities_depth_irrelevant\<close>).
  From Alice, with depth 3, the pipeline returns MongoDB alone; ACME, two steps
  away, is among the documents reachable within the limit and is not returned.
\<close>

theorem traversal_stops_after_one_hop:
  "related_entities graph_store [''Alice''] 3 = Inr [entity.truncate mongodb] \<and>
   acme \<in> set (spec_reachable (collection graph_store) 3
                 (filter (\<lambda>d. ID d \<in> set [''Alice'']) (collection graph_store)))"
proof
  show "related_entities graph_store [''Alice''] 3 = Inr [entity.truncate mongodb]"
    by (simp add: traversal_defs int64_def example_defs)
  show "acme \<in> set (spec_reachable (collection graph_store) 3
                 (filter (\<lambda>d. ID d \<in> set [''Alice'']) (collection graph_store)))"
    by (simp add: numeral_3_eq_3 follow_edges_def relationship_targets_def example_defs)
qed

text \<open>
  Claim C6. No two entities of the list returned carry the same \<^verbatim>\<open>ID\<close>, also
  when several seeds lead to the same entity.
\<close>

theorem related_entities_distinct_ID:
  assumes "related_entities self starting_entities max_depth0 = Inr result"
  shows "distinct (map ID result)"
proof -
  from assms obtain ds where "result = map entity.truncate (group_first [] ds)"
    by (auto simp: related_entities_def Let_def split: if_splits)
  then show ?thesis
    using group_first_props [of "[]" ds] by (simp add: ID_truncate comp_def)
qed

text \<open>Alice and Bob both lead to MongoDB, which is returned once.\<close>

theorem related_entities_distinct_ID_witness:
  "related_entities graph_store [''Alice'', ''Bob''] 3 = Inr [entity.truncate mongodb] \<and>
   distinct (map ID [entity.truncate mongodb])"
proof -
  have h: "related_entities graph_store [''Alice'', ''Bob''] 3 = Inr [entity.truncate mongodb]"
    by (simp add: traversal_defs int64_def example_defs)
  show ?thesis
    using h related_entities_distinct_ID [OF h] by blast
qed

text \<open>
  Claim C7. The traversal ends on every collection, cycles included. The loop
  is the store's: \<^verbatim>\<open>related_entities\<close> itself sends one pipeline, and the
  search of \<^verbatim>\<open>$graphLookup\<close> is total here (its termination is proved with the
  measure \<open>maxDepth - depth\<close>) and visits no document twice. For every depth
  that the driver encodes and the store accepts, from 0 to below \<open>2 ^ 63\<close>,
  the call returns a list that is no longer than the collection and names
  stored entities only.
\<close>

theorem related_entities_terminates:
  assumes "0 \<le> py_or max_depth0 (max_depth self)"
      and "py_or max_depth0 (max_depth self) < 2 ^ 63"
  shows "(\<exists>result. related_entities self starting_entities max_depth0 = Inr result \<and>
            length result \<le> length (collection self) \<and>
            set (map ID result) \<subseteq> set (map ID (collection self))) \<and>
         (\<forall>d. distinct (map oid
            (graphLookup (collection self) (py_or max_depth0 (max_depth self)) (startWith d))))"
proof -
  let ?coll = "collection self"
  let ?ds = "concat (map (\<lambda>d. graphLookup ?coll (py_or max_depth0 (max_depth self)) (startWith d))
               (filter (\<lambda>d. ID d \<in> set starting_entities) ?coll))"
  let ?g = "group_first [] ?ds"
  have res: "related_entities self starting_entities max_depth0 = Inr (map entity.truncate ?g)"
    by (rule related_entities_ok [OF assms])
  have "set ?ds \<subseteq> set ?coll"
    using graphLookup_subset by fastforce
  with group_first_props [of "[]" ?ds] have sub: "set ?g \<subseteq> set ?coll" and dist: "distinct (map ID ?g)"
    by auto
  have "length ?g = card (set (map ID ?g))"
    using dist distinct_card [of "map ID ?g"] by simp
  also have "\<dots> \<le> card (set (map ID ?coll))"
    using sub by (intro card_mono) auto
  also have "\<dots> \<le> length ?coll"
    using card_length [of "map ID ?coll"] by simp
  finally have len: "length (map entity.truncate ?g) \<le> length ?coll" by simp
  have ids: "set (map ID (map entity.truncate ?g)) \<subseteq> set (map ID ?coll)"
    using sub by (auto simp: ID_truncate)
  from res len ids graphLookup_distinct show ?thesis by blast
qed

text \<open>Every entity of the cycle Alice, MongoDB, ACME is a seed.\<close>

theorem related_entities_terminates_witness:
  "0 \<le> py_or 3 (max_depth graph_store) \<and> py_or 3 (max_depth graph_store) < 2 ^ 63 \<and>
   (\<exists>result. related_entities graph_store [''Alice'', ''MongoDB'', ''ACME''] 3 = Inr result \<and>
      length result \<le> length (collection graph_store) \<and>
      set (map ID result) \<subseteq> set (map ID (collection graph_store))) \<and>
   (\<forall>d. distinct (map oid
      (graphLookup (collection graph_store) (py_or 3 (max_depth graph_store)) (startWith d))))"
proof -
  have h: "0 \<le> py_or 3 (max_depth graph_store)" "py_or 3 (max_depth graph_store) < 2 ^ 63"
    by (simp_all add: py_or_def)
  show ?thesis
    using h related_entities_terminates [OF h, of "[''Alice'', ''MongoDB'', ''ACME'']"] by blast
qed

text \<open>
  Claim C8. With an empty list of starting entities the call returns the empty
  list, for every collection and every depth from 0 to below \<open>2 ^ 63\<close>; the
  call with the default depth 3 does so for every store.
\<close>

theorem related_entities_no_seeds:
  assumes "0 \<le> py_or max_depth0 (max_depth self)"
      and "py_or max_depth0 (max_depth self) < 2 ^ 63"
  shows "related_entities self [] max_depth0 = Inr [] \<and> related_entities self [] 3 = Inr []"
  using assms by (simp add: related_entities_def Let_def int64_def py_or_def)

theorem related_entities_no_seeds_witness:
  "0 \<le> py_or 7 (max_depth graph_store) \<and> py_or 7 (max_depth graph_store) < 2 ^ 63 \<and>
   related_entities graph_store [] 7 = Inr [] \<and> related_entities graph_store [] 3 = Inr []"
proof -
  have h: "0 \<le> py_or 7 (max_depth graph_store)" "py_or 7 (max_depth graph_store) < 2 ^ 63"
    by (simp_all add: py_or_def)
  show ?thesis
    using h related_entities_no_seeds [OF h] by blast
qed

text \<open>
  Claim C9. The depth handed to the pipeline is \<^verbatim>\<open>max_depth or self.max_depth\<close>:
  an explicit 0 is replaced by the depth configured in the store, and the call
  is the call with that depth.
\<close>

theorem max_depth_zero_is_default:
  "py_or 0 (max_depth self) = max_depth self \<and>
   related_entities self starting_entities 0 =
     related_entities self starting_entities (max_depth self)"
  by (simp add: related_entities_def py_or_def)

end
